theory Spec2Isabelle
  imports Main "HOL-Library.AList"
begin

section \<open>Data model of MongoEntityConnection\<close>

text \<open>
  An entity (a document of the collection) is read only through \<open>item[fieldName]\<close>, so it
  is a function from field names to values. The values of the sort fields are compared by
  the store; they are taken from an arbitrary linear order \<open>'v\<close>, the order of the store
  on the values of one type.
\<close>

type_synonym 'v entity = "string \<Rightarrow> 'v"

text \<open>\<open>MongoEntityConnectionSortOption\<close>: \<open>order\<close> is \<open>1\<close> (ascending) or \<open>-1\<close> (descending).\<close>

record MongoEntityConnectionSortOption =
  fieldName :: string
  order :: int

text \<open>
  A \<open>Selector\<close> is a MongoDB query document. The connection builds documents of three
  shapes: a document of field conditions (\<open>{}\<close> is the empty one), \<open>{ $or: [...] }\<close> and
  \<open>{ $and: [...] }\<close>. A field condition is either a literal (equality) or one comparison
  operator with its operand; the operand is \<open>None\<close> where JavaScript reads \<open>key[j]\<close>
  beyond the end of the key and obtains \<open>undefined\<close>.
\<close>

datatype operator = Gt | Lt | Gte | Lte

datatype 'v condition = Equals "'v option" | Compare operator "'v option"

datatype 'v selector =
    Doc "(string \<times> 'v condition) list"
  | Or "'v selector list"
  | And "'v selector list"

datatype direction = After | Before

subsection \<open>Meaning of a selector\<close>

text \<open>
  The store evaluates a selector on a document: a comparison holds when the field's value
  stands in the named relation to the operand, a document of conditions when all of them
  hold, \<open>$or\<close> when some member holds and \<open>$and\<close> when all do. A comparison against
  \<open>undefined\<close> holds for no value.
\<close>

fun compare :: "operator \<Rightarrow> 'v::linorder \<Rightarrow> 'v \<Rightarrow> bool" where
  "compare Gt x v = (v < x)"
| "compare Lt x v = (x < v)"
| "compare Gte x v = (v \<le> x)"
| "compare Lte x v = (x \<le> v)"

fun holds :: "'v::linorder condition \<Rightarrow> 'v \<Rightarrow> bool" where
  "holds (Equals None) x = False"
| "holds (Equals (Some v)) x = (x = v)"
| "holds (Compare oper None) x = False"
| "holds (Compare oper (Some v)) x = compare oper x v"

fun matches :: "'v::linorder selector \<Rightarrow> 'v entity \<Rightarrow> bool" where
  "matches (Doc cs) item = (\<forall>c \<in> set cs. holds (snd c) (item (fst c)))"
| "matches (Or ss) item = (\<exists>s \<in> set ss. matches s item)"
| "matches (And ss) item = (\<forall>s \<in> set ss. matches s item)"

section \<open>keyToSelector\<close>

text \<open>\<open>key[j]\<close>: \<open>undefined\<close> beyond the end of the key.\<close>

definition key_at :: "'v list \<Rightarrow> nat \<Rightarrow> 'v option" where
  "key_at key j = (if j < length key then Some (key ! j) else None)"

text \<open>The table \<open>eq\<close> of operator names chosen by the direction.\<close>

definition eq :: "direction \<Rightarrow> operator list" where
  "eq d = (if d = After then [Gt, Lt, Gte, Lte] else [Lt, Gt, Lte, Gte])"

text \<open>The operator chosen in the inner loop for outer index \<open>i\<close>, inner index \<open>j\<close>.\<close>

definition equality :: "direction \<Rightarrow> nat \<Rightarrow> nat \<Rightarrow> int \<Rightarrow> operator" where
  "equality d i j ord =
     (if i = j then (if ord = 1 then eq d ! 0 else eq d ! 1)
      else (if ord = 1 then eq d ! 2 else eq d ! 3))"

text \<open>
  The inner loop \<open>for (j = 0; j < i + 1; j++) selector[fieldName] = { [equality]: value }\<close>.
  Assigning a property of a JavaScript object replaces the value of an existing key in
  place and appends a new key, which is \<open>AList.update\<close>.
\<close>

definition conjunct ::
  "MongoEntityConnectionSortOption list \<Rightarrow> 'v list \<Rightarrow> direction \<Rightarrow> nat \<Rightarrow>
   (string \<times> 'v condition) list" where
  "conjunct so key d i =
     foldl (\<lambda>sel j. AList.update (fieldName (so ! j))
                       (Compare (equality d i j (order (so ! j))) (key_at key j)) sel)
       [] [0 ..< i + 1]"

text \<open>The outer loop pushes one document per index; the result is \<open>{ $or }\<close>.\<close>

definition keyToSelector ::
  "MongoEntityConnectionSortOption list \<Rightarrow> 'v list \<Rightarrow> direction \<Rightarrow> 'v selector" where
  "keyToSelector so key d = Or (map (\<lambda>i. Doc (conjunct so key d i)) [0 ..< length so])"

section \<open>Composite sort order and the standard keyset predicate\<close>

text \<open>
  The key of an entity under the sort options, as \<open>resolveCursor\<close> extracts it:
  \<open>sortOptions.map(({ fieldName }) => item[fieldName])\<close>.
\<close>

definition extractKey :: "MongoEntityConnectionSortOption list \<Rightarrow> 'v entity \<Rightarrow> 'v list" where
  "extractKey so item = map (\<lambda>s. item (fieldName s)) so"

text \<open>
  \<open>key_less ds a b\<close>: key \<open>a\<close> sorts strictly before key \<open>b\<close> when field \<open>i\<close> is sorted in
  direction \<open>ds ! i\<close>; the first field where the keys differ decides.
\<close>

fun key_less :: "int list \<Rightarrow> 'v::linorder list \<Rightarrow> 'v list \<Rightarrow> bool" where
  "key_less (d # ds) (a # as) (b # bs) =
     (if a = b then key_less ds as bs else if d = 1 then a < b else b < a)"
| "key_less _ _ _ = False"

text \<open>
  The standard keyset predicate in the words of the specification: for each index \<open>i\<close>
  the fields before \<open>i\<close> are equal to the key and field \<open>i\<close> satisfies the strict
  comparison of its direction; the disjunction of these conjunctions.
\<close>

definition strict_operator :: "direction \<Rightarrow> int \<Rightarrow> operator" where
  "strict_operator d ord =
     (case d of After \<Rightarrow> (if ord = 1 then Gt else Lt)
              | Before \<Rightarrow> (if ord = 1 then Lt else Gt))"

definition keyset_conjunct ::
  "MongoEntityConnectionSortOption list \<Rightarrow> 'v list \<Rightarrow> direction \<Rightarrow> nat \<Rightarrow>
   (string \<times> 'v condition) list" where
  "keyset_conjunct so key d i =
     map (\<lambda>j. (fieldName (so ! j),
                if j < i then Equals (key_at key j)
                else Compare (strict_operator d (order (so ! j))) (key_at key j)))
       [0 ..< i + 1]"

definition keyset_predicate ::
  "MongoEntityConnectionSortOption list \<Rightarrow> 'v list \<Rightarrow> direction \<Rightarrow> 'v selector" where
  "keyset_predicate so key d = Or (map (\<lambda>i. Doc (keyset_conjunct so key d i)) [0 ..< length so])"

text \<open>
  The keys are decided at index \<open>i\<close>: the entity agrees with the key on the fields before
  \<open>i\<close> and field \<open>i\<close> satisfies the strict comparison of its direction.
\<close>

definition decided_at ::
  "MongoEntityConnectionSortOption list \<Rightarrow> 'v::linorder list \<Rightarrow> direction \<Rightarrow> 'v entity \<Rightarrow>
   nat \<Rightarrow> bool" where
  "decided_at so key d item i \<longleftrightarrow>
     (\<forall>j \<in> {0 ..< i}. holds (Equals (key_at key j)) (item (fieldName (so ! j)))) \<and>
     holds (Compare (strict_operator d (order (so ! i))) (key_at key i)) (item (fieldName (so ! i)))"

section \<open>Connection arguments, options and the connection object\<close>

text \<open>
  \<open>ConnectionArguments\<close>: \<open>first\<close> and \<open>last\<close> are numbers when given, taken here
  from the non-negative integers of the specification's data model; \<open>after\<close> and
  \<open>before\<close> are cursor strings when given. (\<open>last'\<close> is the field \<open>last\<close>.)
\<close>

record ConnectionArguments =
  first :: "nat option"
  last' :: "nat option"
  after :: "string option"
  before :: "string option"

text \<open>
  \<open>MongoEntityConnectionOptions\<close>. The object \<open>sortOptions\<close> is the list of its
  properties in the order of \<open>Object.keys\<close>; an object has each key once. The repository
  is passed to the methods that use it.
\<close>

record 'v MongoEntityConnectionOptions =
  opt_sortOptions :: "(string \<times> int) list"
  opt_selector :: "'v selector option"

datatype error = Error string | TypeError string | LibraryError string

text \<open>
  The serialisation library held in \<open>this.bson\<close> and the base64 conversions of
  \<open>Buffer\<close> are not part of the sources; the connection takes them as given.
  \<open>bson_deserialize\<close> throws on a buffer that is no document.
\<close>

record 'v library =
  bson_serialize :: "'v list \<Rightarrow> string"
  bson_deserialize :: "string \<Rightarrow> error + 'v list"
  toString_base64 :: "string \<Rightarrow> string"
  from_base64 :: "string \<Rightarrow> string"

record 'v MongoEntityConnection =
  args :: ConnectionArguments
  options :: "'v MongoEntityConnectionOptions"
  limit :: "nat option"
  sortOptions :: "MongoEntityConnectionSortOption list"
  afterKey :: "'v list option"
  beforeKey :: "'v list option"
  afterSelector :: "'v selector option"
  beforeSelector :: "'v selector option"
  selector :: "'v selector"
  queryPromise :: "'v entity list option"

subsection \<open>Cursors\<close>

definition resolveCursor ::
  "'v library \<Rightarrow> MongoEntityConnectionSortOption list \<Rightarrow> 'v entity \<Rightarrow> string" where
  "resolveCursor lib so item = toString_base64 lib (bson_serialize lib (extractKey so item))"

definition explodeCursor :: "'v library \<Rightarrow> string \<Rightarrow> error + 'v list" where
  "explodeCursor lib cursor = bson_deserialize lib (from_base64 lib cursor)"

subsection \<open>The constructor\<close>

text \<open>
  The constructor tests \<open>args.first\<close>, \<open>args.last\<close>, \<open>args.after\<close> and \<open>args.before\<close>
  for truthiness: a number is truthy unless it is \<open>0\<close>, a string unless it is empty.
\<close>

definition truthy_number :: "nat option \<Rightarrow> bool" where
  "truthy_number x = (case x of None \<Rightarrow> False | Some n \<Rightarrow> n \<noteq> 0)"

definition truthy_string :: "string option \<Rightarrow> bool" where
  "truthy_string x = (case x of None \<Rightarrow> False | Some s \<Rightarrow> s \<noteq> [])"

definition first_and_last_message :: string where
  \<open>first_and_last_message =
     ''Argument "first" and "last" must not be included at the same time''\<close>

text \<open>\<open>if (args.after) { this.afterKey = this.explodeCursor(args.after); ... }\<close>\<close>

definition explode_if_given :: "'v library \<Rightarrow> string option \<Rightarrow> error + 'v list option" where
  "explode_if_given lib cursor =
     (case cursor of
        None \<Rightarrow> Inr None
      | Some c \<Rightarrow>
          if truthy_string (Some c)
          then (case explodeCursor lib c of Inl e \<Rightarrow> Inl e | Inr key \<Rightarrow> Inr (Some key))
          else Inr None)"

text \<open>
  The selectors pushed, in order, and the selector chosen from their number. The sort
  options become the list of \<open>{ fieldName, order }\<close> over \<open>Object.keys\<close>; the copy
  \<open>this.args = { ...args }\<close> leaves the arguments as they are; \<open>queryPromise\<close> starts
  as \<open>null\<close>.
\<close>

definition pushed :: "'a option \<Rightarrow> 'a list" where
  "pushed x = (case x of None \<Rightarrow> [] | Some s \<Rightarrow> [s])"

definition combine :: "'v selector list \<Rightarrow> 'v selector" where
  "combine selectors =
     (if length selectors = 0 then Doc []
      else if length selectors = 1 then selectors ! 0
      else And selectors)"

definition constructor ::
  "'v library \<Rightarrow> ConnectionArguments \<Rightarrow> 'v MongoEntityConnectionOptions \<Rightarrow>
   error + 'v MongoEntityConnection" where
  "constructor lib a opts =
     (if truthy_number (first a) \<and> truthy_number (last' a)
      then Inl (Error first_and_last_message)
      else
        let so = map (\<lambda>name. \<lparr>fieldName = name,
                                 order = the (map_of (opt_sortOptions opts) name)\<rparr>)
                   (map fst (opt_sortOptions opts));
            lim = (if truthy_number (first a) then first a
                   else if truthy_number (last' a) then last' a
                   else None)
        in case explode_if_given lib (after a) of
             Inl e \<Rightarrow> Inl e
           | Inr aKey \<Rightarrow>
               (case explode_if_given lib (before a) of
                  Inl e \<Rightarrow> Inl e
                | Inr bKey \<Rightarrow>
                    let aSel = map_option (\<lambda>key. keyToSelector so key After) aKey;
                        bSel = map_option (\<lambda>key. keyToSelector so key Before) bKey
                    in Inr \<lparr>args = a, options = opts, limit = lim, sortOptions = so,
                            afterKey = aKey, beforeKey = bKey,
                            afterSelector = aSel, beforeSelector = bSel,
                            selector = combine (pushed aSel @ pushed bSel @ pushed (opt_selector opts)),
                            queryPromise = None\<rparr>))"

section \<open>The repository\<close>

text \<open>
  Modelled from the spec: the repository (\<open>MongoRepository\<close>) is not part of the sources.
  \<open>find\<close> and \<open>count\<close> follow the contract of the ordered query executor: \<open>find\<close>
  returns the documents that match, sorted by the given order and truncated to \<open>take\<close>
  when given; \<open>count\<close> with a limit returns the smaller of the number of matching
  documents and the limit. Every call is appended to the log \<open>calls\<close>. The sort
  is an insertion sort by the composite order of the given fields; documents with equal
  keys keep the order of the collection.
\<close>

datatype 'v call =
    Find "'v selector" "(string \<times> int) list" "nat option"
  | Count "'v selector" nat

record 'v MongoRepository =
  documents :: "'v entity list"
  calls :: "'v call list"

definition entity_less :: "(string \<times> int) list \<Rightarrow> 'v::linorder entity \<Rightarrow> 'v entity \<Rightarrow> bool" where
  "entity_less ord x y =
     key_less (map snd ord) (map (\<lambda>p. x (fst p)) ord) (map (\<lambda>p. y (fst p)) ord)"

fun insort_by :: "('a \<Rightarrow> 'a \<Rightarrow> bool) \<Rightarrow> 'a \<Rightarrow> 'a list \<Rightarrow> 'a list" where
  "insort_by lt x [] = [x]"
| "insort_by lt x (y # ys) = (if lt y x then y # insort_by lt x ys else x # y # ys)"

definition sort_by :: "('a \<Rightarrow> 'a \<Rightarrow> bool) \<Rightarrow> 'a list \<Rightarrow> 'a list" where
  "sort_by lt xs = foldr (insort_by lt) xs []"

definition find ::
  "'v::linorder MongoRepository \<Rightarrow> 'v selector \<Rightarrow> (string \<times> int) list \<Rightarrow> nat option \<Rightarrow>
   'v entity list \<times> 'v MongoRepository" where
  "find repo sel ord tk =
     (let sorted_docs = sort_by (entity_less ord) (filter (matches sel) (documents repo))
      in (case tk of None \<Rightarrow> sorted_docs | Some n \<Rightarrow> take n sorted_docs,
          repo\<lparr>calls := calls repo @ [Find sel ord tk]\<rparr>))"

definition count ::
  "'v::linorder MongoRepository \<Rightarrow> 'v selector \<Rightarrow> nat \<Rightarrow> nat \<times> 'v MongoRepository" where
  "count repo sel lim =
     (min (length (filter (matches sel) (documents repo))) lim,
      repo\<lparr>calls := calls repo @ [Count sel lim]\<rparr>)"

section \<open>The query and the page information\<close>

text \<open>
  \<open>query\<close>: \<open>reverse\<close> is \<open>typeof this.args.last === 'number'\<close>; the applied order is
  built property by property with \<open>order * (reverse ? -1 : 1)\<close>.
\<close>

definition appliedSortOrder ::
  "MongoEntityConnectionSortOption list \<Rightarrow> bool \<Rightarrow> (string \<times> int) list" where
  "appliedSortOrder so reverse =
     foldl (\<lambda>results s. AList.update (fieldName s) (order s * (if reverse then - 1 else 1)) results)
       [] so"

definition query ::
  "'v::linorder MongoEntityConnection \<Rightarrow> 'v MongoRepository \<Rightarrow>
   'v entity list \<times> 'v MongoRepository" where
  "query conn repo =
     (let reverse = (last' (args conn) \<noteq> None);
          (docs, repo') = find repo (selector conn)
                            (appliedSortOrder (sortOptions conn) reverse) (limit conn)
      in (if reverse then rev docs else docs, repo'))"

text \<open>
  \<open>getEdgeSources\<close>: a promise is an object and so truthy; \<open>!this.queryPromise\<close> holds
  exactly while the field is \<open>null\<close>.
\<close>

definition getEdgeSources ::
  "'v::linorder MongoEntityConnection \<Rightarrow> 'v MongoRepository \<Rightarrow>
   'v entity list \<times> 'v MongoEntityConnection \<times> 'v MongoRepository" where
  "getEdgeSources conn repo =
     (case queryPromise conn of
        None \<Rightarrow>
          (let (docs, repo') = query conn repo
           in (docs, conn\<lparr>queryPromise := Some docs\<rparr>, repo'))
      | Some docs \<Rightarrow> (docs, conn, repo))"

text \<open>Reading the edge sources \<open>n\<close> times in a row; the results are collected.\<close>

fun getEdgeSources_times ::
  "nat \<Rightarrow> 'v::linorder MongoEntityConnection \<Rightarrow> 'v MongoRepository \<Rightarrow>
   'v entity list list \<times> 'v MongoEntityConnection \<times> 'v MongoRepository" where
  "getEdgeSources_times 0 conn repo = ([], conn, repo)"
| "getEdgeSources_times (Suc n) conn repo =
     (let (docs, conn', repo') = getEdgeSources conn repo;
          (rest, conn'', repo'') = getEdgeSources_times n conn' repo'
      in (docs # rest, conn'', repo''))"

text \<open>
  \<open>keyToSelector(this.beforeKey!, ...)\<close> on a key that was never set: reading \<open>key[j]\<close>
  of \<open>undefined\<close> throws a TypeError as soon as the loop body runs.
\<close>

definition keyToSelector_of ::
  "MongoEntityConnectionSortOption list \<Rightarrow> 'v list option \<Rightarrow> direction \<Rightarrow> error + 'v selector" where
  "keyToSelector_of so key d =
     (case key of
        Some k \<Rightarrow> Inr (keyToSelector so k d)
      | None \<Rightarrow> if so = [] then Inr (Or []) else Inl (TypeError ''Cannot read property of undefined''))"

definition resolveHasNextPage ::
  "'v::linorder MongoEntityConnection \<Rightarrow> 'v MongoRepository \<Rightarrow>
   (error + bool) \<times> 'v MongoRepository" where
  "resolveHasNextPage conn repo =
     (case first (args conn) of
        Some f \<Rightarrow>
          (let (limitOrMore, repo') = count repo (selector conn) (f + 1)
           in (Inr (limitOrMore > f), repo'))
      | None \<Rightarrow>
          (case before (args conn) of
             Some b \<Rightarrow>
               (case keyToSelector_of (sortOptions conn) (beforeKey conn) After of
                  Inl e \<Rightarrow> (Inl e, repo)
                | Inr afterBeforeSelector \<Rightarrow>
                    (let (oneOrZero, repo') = count repo afterBeforeSelector 1
                     in (Inr (oneOrZero > 0), repo')))
           | None \<Rightarrow> (Inr False, repo)))"

definition resolveHasPreviousPage ::
  "'v::linorder MongoEntityConnection \<Rightarrow> 'v MongoRepository \<Rightarrow>
   (error + bool) \<times> 'v MongoRepository" where
  "resolveHasPreviousPage conn repo =
     (case last' (args conn) of
        Some l \<Rightarrow>
          (let (limitOrMore, repo') = count repo (selector conn) (l + 1)
           in (Inr (limitOrMore > l), repo'))
      | None \<Rightarrow>
          (case after (args conn) of
             Some a \<Rightarrow>
               (case keyToSelector_of (sortOptions conn) (afterKey conn) Before of
                  Inl e \<Rightarrow> (Inl e, repo)
                | Inr beforeAfterSelector \<Rightarrow>
                    (let (oneOrZero, repo') = count repo beforeAfterSelector 1
                     in (Inr (oneOrZero > 0), repo')))
           | None \<Rightarrow> (Inr False, repo)))"

section \<open>Example data\<close>

text \<open>
  The sort options of the test suite, \<open>{ createdAt: 1, slug: -1 }\<close>, and posts with
  numbers for the two fields.
\<close>

definition example_sortOptions :: "MongoEntityConnectionSortOption list" where
  "example_sortOptions =
     [\<lparr>fieldName = ''createdAt'', order = 1\<rparr>, \<lparr>fieldName = ''slug'', order = - 1\<rparr>]"

definition post :: "nat \<Rightarrow> nat \<Rightarrow> nat entity" where
  "post c s = (\<lambda>f. if f = ''createdAt'' then c else if f = ''slug'' then s else 0)"

text \<open>
  A stand-in for the serialisation library: one character per component of the key, and
  the empty buffer is no document. The options of the test suite, without a selector.
\<close>

definition example_library :: "nat library" where
  "example_library =
     \<lparr>bson_serialize = map char_of,
      bson_deserialize = (\<lambda>buffer. if buffer = [] then Inl (LibraryError ''no document'')
                                     else Inr (map of_char buffer)),
      toString_base64 = (\<lambda>buffer. buffer),
      from_base64 = (\<lambda>cursor. cursor)\<rparr>"

definition example_options :: "nat MongoEntityConnectionOptions" where
  "example_options =
     \<lparr>opt_sortOptions = [(''createdAt'', 1), (''slug'', - 1)], opt_selector = None\<rparr>"

text \<open>
  Arguments with both cursors, the connection the constructor builds from them, and a
  collection of seven posts.
\<close>

definition example_arguments :: ConnectionArguments where
  "example_arguments = \<lparr>first = Some 2, last' = None, after = Some ''AB'', before = Some ''DA''\<rparr>"

definition example_connection :: "nat MongoEntityConnection" where
  "example_connection =
     \<lparr>args = example_arguments, options = example_options, limit = Some 2,
      sortOptions = example_sortOptions,
      afterKey = Some [65, 66], beforeKey = Some [68, 65],
      afterSelector = Some (keyToSelector example_sortOptions [65, 66] After),
      beforeSelector = Some (keyToSelector example_sortOptions [68, 65] Before),
      selector = And [keyToSelector example_sortOptions [65, 66] After,
                      keyToSelector example_sortOptions [68, 65] Before],
      queryPromise = None\<rparr>"

definition example_repository :: "nat MongoRepository" where
  "example_repository =
     \<lparr>documents = [post 64 1, post 65 70, post 65 60, post 66 1, post 67 1, post 68 70, post 69 1],
      calls = []\<rparr>"

text \<open>Arguments for backward paging, and the connections the constructor builds from them.\<close>

definition last_two_arguments :: ConnectionArguments where
  "last_two_arguments = \<lparr>first = None, last' = Some 2, after = None, before = None\<rparr>"

definition last_two_connection :: "nat MongoEntityConnection" where
  "last_two_connection =
     \<lparr>args = last_two_arguments, options = example_options, limit = Some 2,
      sortOptions = example_sortOptions, afterKey = None, beforeKey = None,
      afterSelector = None, beforeSelector = None, selector = Doc [], queryPromise = None\<rparr>"

text \<open>Arguments whose only cursor is the empty string.\<close>

definition empty_after_arguments :: ConnectionArguments where
  "empty_after_arguments = \<lparr>first = None, last' = None, after = Some [], before = None\<rparr>"

definition empty_before_arguments :: ConnectionArguments where
  "empty_before_arguments = \<lparr>first = None, last' = None, after = None, before = Some []\<rparr>"

definition last_zero_arguments :: ConnectionArguments where
  "last_zero_arguments = \<lparr>first = None, last' = Some 0, after = None, before = None\<rparr>"

section \<open>Properties of keyToSelector\<close>

lemma update_fresh:
  "k \<notin> fst ` set al \<Longrightarrow> AList.update k v al = al @ [(k, v)]"
  by (induction al) auto

lemma foldl_update_fresh:
  "distinct (map fst al @ map f js) \<Longrightarrow>
   foldl (\<lambda>sel j. AList.update (f j) (g j) sel) al js = al @ map (\<lambda>j. (f j, g j)) js"
proof (induction js arbitrary: al)
  case Nil
  then show ?case by simp
next
  case (Cons j js)
  from Cons.prems have fresh: "f j \<notin> fst ` set al" by auto
  from Cons.prems have "distinct (map fst (al @ [(f j, g j)]) @ map f js)" by auto
  from Cons.IH [OF this] fresh show ?case by (simp add: update_fresh)
qed

lemma conjunct_distinct:
  assumes "distinct (map fieldName so)" "i < length so"
  shows "conjunct so key d i =
         map (\<lambda>j. (fieldName (so ! j),
                    Compare (equality d i j (order (so ! j))) (key_at key j))) [0 ..< i + 1]"
proof -
  have "map (\<lambda>j. fieldName (so ! j)) [0 ..< i + 1] = take (i + 1) (map fieldName so)"
    using assms(2) by (intro nth_equalityI) (simp_all del: upt_Suc)
  then have "distinct (map (\<lambda>j. fieldName (so ! j)) [0 ..< i + 1])"
    using assms(1) by (simp add: distinct_take)
  then show ?thesis
    unfolding conjunct_def
    using foldl_update_fresh [of "[]" "\<lambda>j. fieldName (so ! j)" "[0 ..< i + 1]"]
    by simp
qed

lemma key_less_iff:
  "length a = length ds \<Longrightarrow> length b = length ds \<Longrightarrow>
   key_less ds a b \<longleftrightarrow>
   (\<exists>i < length ds. (\<forall>j < i. a ! j = b ! j) \<and> a ! i \<noteq> b ! i \<and>
       (if ds ! i = 1 then a ! i < b ! i else b ! i < a ! i))"
proof (induction ds a b rule: key_less.induct)
  case (1 d ds a as b bs)
  show ?case
  proof (cases "a = b")
    case True
    with 1 have IH: "key_less ds as bs \<longleftrightarrow>
      (\<exists>i < length ds. (\<forall>j < i. as ! j = bs ! j) \<and> as ! i \<noteq> bs ! i \<and>
       (if ds ! i = 1 then as ! i < bs ! i else bs ! i < as ! i))" by simp
    show ?thesis
      by (simp add: True IH Ex_less_Suc2 All_less_Suc2)
  next
    case False
    then show ?thesis
      by (auto intro!: exI [of _ 0]) (metis gr0I nth_Cons_0)+
  qed
qed simp_all

lemma equality_diag: "equality d i i ord = strict_operator d ord"
  by (cases d) (simp_all add: equality_def eq_def strict_operator_def)

lemma strict_not_equal:
  "holds (Compare (strict_operator d ord) k) x \<Longrightarrow> \<not> holds (Equals k) x"
  by (cases k; cases d) (auto simp: strict_operator_def split: if_splits)

lemma equal_imp_prefix:
  "j \<noteq> i \<Longrightarrow> holds (Equals k) x \<Longrightarrow> holds (Compare (equality d i j ord) k) x"
  by (cases k; cases d) (auto simp: equality_def eq_def numeral_2_eq_2 numeral_3_eq_3)

lemma prefix_unequal_imp_strict:
  "holds (Compare (equality d i j ord) k) x \<Longrightarrow> \<not> holds (Equals k) x \<Longrightarrow>
   holds (Compare (strict_operator d ord) k) x"
  by (cases k; cases d)
     (auto simp: equality_def eq_def strict_operator_def numeral_2_eq_2 numeral_3_eq_3
           split: if_splits)

lemma matches_Or_map:
  "matches (Or (map f xs)) item \<longleftrightarrow> (\<exists>x \<in> set xs. matches (f x) item)"
  by simp

lemma matches_conjunct:
  assumes "distinct (map fieldName so)" "i < length so"
  shows "matches (Doc (conjunct so key d i)) item \<longleftrightarrow>
         (\<forall>j \<le> i. holds (Compare (equality d i j (order (so ! j))) (key_at key j))
                      (item (fieldName (so ! j))))"
  using assms by (auto simp: conjunct_distinct less_Suc_eq_le simp del: upt_Suc)

lemma matches_keyset_conjunct:
  "matches (Doc (keyset_conjunct so key d i)) item \<longleftrightarrow> decided_at so key d item i"
  by (auto simp: keyset_conjunct_def decided_at_def less_Suc_eq simp del: upt_Suc)

lemma matches_keyset_predicate:
  "matches (keyset_predicate so key d) item \<longleftrightarrow> (\<exists>i < length so. decided_at so key d item i)"
  by (simp only: keyset_predicate_def matches_Or_map matches_keyset_conjunct) auto

text \<open>
  The selector of \<open>keyToSelector\<close> holds exactly when the entity and the key are decided
  at some index. From a conjunct that holds, the first index where the entity differs
  from the key is taken: the comparisons before it are equalities, and the non-strict
  comparison at it is strict.
\<close>

lemma matches_keyToSelector:
  assumes "distinct (map fieldName so)"
  shows "matches (keyToSelector so key d) item \<longleftrightarrow> (\<exists>i < length so. decided_at so key d item i)"
proof
  assume "matches (keyToSelector so key d) item"
  then obtain i where i: "i < length so"
    and all: "\<forall>j \<le> i. holds (Compare (equality d i j (order (so ! j))) (key_at key j))
                      (item (fieldName (so ! j)))"
    using assms
    by (simp only: keyToSelector_def matches_Or_map)
       (auto simp only: matches_conjunct set_upt atLeastLessThan_iff)
  let ?differs = "\<lambda>j. j \<le> i \<and> \<not> holds (Equals (key_at key j)) (item (fieldName (so ! j)))"
  from all have "holds (Compare (equality d i i (order (so ! i))) (key_at key i))
      (item (fieldName (so ! i)))"
    by blast
  then have "holds (Compare (strict_operator d (order (so ! i))) (key_at key i))
      (item (fieldName (so ! i)))"
    by (simp only: equality_diag)
  then have "?differs i"
    by (simp add: strict_not_equal)
  define m where "m = (LEAST j. ?differs j)"
  have m: "?differs m" unfolding m_def by (rule LeastI [of ?differs, OF \<open>?differs i\<close>])
  have least: "\<And>j. j < m \<Longrightarrow> \<not> ?differs j" unfolding m_def by (rule not_less_Least)
  have "decided_at so key d item m"
    unfolding decided_at_def
  proof (intro conjI ballI)
    fix j assume "j \<in> {0 ..< m}"
    with least [of j] m show "holds (Equals (key_at key j)) (item (fieldName (so ! j)))" by auto
  next
    from all m show "holds (Compare (strict_operator d (order (so ! m))) (key_at key m))
       (item (fieldName (so ! m)))"
      by (blast intro: prefix_unequal_imp_strict)
  qed
  moreover from m i have "m < length so" by simp
  ultimately show "\<exists>i < length so. decided_at so key d item i" by blast
next
  assume "\<exists>i < length so. decided_at so key d item i"
  then obtain i where i: "i < length so" and dec: "decided_at so key d item i" by blast
  have "matches (Doc (conjunct so key d i)) item"
    unfolding matches_conjunct [OF assms i]
  proof (intro allI impI)
    fix j assume "j \<le> i"
    show "holds (Compare (equality d i j (order (so ! j))) (key_at key j)) (item (fieldName (so ! j)))"
    proof (cases "j = i")
      case True
      with dec show ?thesis by (simp add: decided_at_def equality_diag)
    next
      case False
      with \<open>j \<le> i\<close> dec show ?thesis by (auto simp: decided_at_def intro: equal_imp_prefix)
    qed
  qed
  with i show "matches (keyToSelector so key d) item"
    by (simp only: keyToSelector_def matches_Or_map) auto
qed

lemma decided_at_After:
  assumes "length key = length so" "i < length so"
  shows "decided_at so key After item i \<longleftrightarrow>
     (\<forall>j < i. key ! j = extractKey so item ! j) \<and> key ! i \<noteq> extractKey so item ! i \<and>
     (if map order so ! i = 1 then key ! i < extractKey so item ! i
      else extractKey so item ! i < key ! i)"
  using assms by (auto simp: decided_at_def key_at_def extractKey_def strict_operator_def)

lemma decided_at_Before:
  assumes "length key = length so" "i < length so"
  shows "decided_at so key Before item i \<longleftrightarrow>
     (\<forall>j < i. extractKey so item ! j = key ! j) \<and> extractKey so item ! i \<noteq> key ! i \<and>
     (if map order so ! i = 1 then extractKey so item ! i < key ! i
      else key ! i < extractKey so item ! i)"
  using assms by (auto simp: decided_at_def key_at_def extractKey_def strict_operator_def)

subsection \<open>The range predicate and the composite sort order\<close>

text \<open>
  Claim C1. For sort options of length at least one (an object's field names are
  distinct) and a key of the same length, the selector built with direction \<open>after\<close>
  holds of exactly the entities whose key sorts strictly after the cursor key in the
  composite order, each field in its own direction and the first differing field
  deciding; the selector built with \<open>before\<close> holds of exactly the entities whose key
  sorts strictly before it.
\<close>

theorem keyToSelector_composite_order:
  assumes "so \<noteq> []" "length key = length so" "distinct (map fieldName so)"
  shows "(matches (keyToSelector so key After) item
            \<longleftrightarrow> key_less (map order so) key (extractKey so item)) \<and>
         (matches (keyToSelector so key Before) item
            \<longleftrightarrow> key_less (map order so) (extractKey so item) key)"
proof -
  have len: "length (extractKey so item) = length (map order so)"
    "length key = length (map order so)"
    using assms(2) by (simp_all add: extractKey_def)
  have "matches (keyToSelector so key After) item
           \<longleftrightarrow> key_less (map order so) key (extractKey so item)"
    unfolding matches_keyToSelector [OF assms(3)] key_less_iff [OF len(2) len(1)]
    using assms(2) by (auto simp: decided_at_After)
  moreover have "matches (keyToSelector so key Before) item
           \<longleftrightarrow> key_less (map order so) (extractKey so item) key"
    unfolding matches_keyToSelector [OF assms(3)] key_less_iff [OF len(1) len(2)]
    using assms(2) by (auto simp: decided_at_Before)
  ultimately show ?thesis by blast
qed

theorem keyToSelector_composite_order_witness:
  "example_sortOptions \<noteq> [] \<and> length [5::nat, 7] = length example_sortOptions \<and>
   distinct (map fieldName example_sortOptions) \<and>
   matches (keyToSelector example_sortOptions [5, 7] After) (post 5 6) \<and>
   key_less (map order example_sortOptions) [5, 7] (extractKey example_sortOptions (post 5 6)) \<and>
   \<not> matches (keyToSelector example_sortOptions [5, 7] Before) (post 5 6) \<and>
   \<not> key_less (map order example_sortOptions) (extractKey example_sortOptions (post 5 6)) [5, 7]"
  using keyToSelector_composite_order [of example_sortOptions "[5, 7]" "post 5 6"]
  by (simp add: example_sortOptions_def post_def extractKey_def)

subsection \<open>Non-strict prefix comparisons against equality on the prefix\<close>

text \<open>
  Claim C10. The selector of \<open>keyToSelector\<close>, whose conjunct \<open>i\<close> compares the fields
  before \<open>i\<close> non-strictly and field \<open>i\<close> strictly, holds of the same entities as the
  standard keyset predicate, whose conjunct \<open>i\<close> requires the fields before \<open>i\<close> to be
  equal to the key (the field names of the sort options being distinct).
\<close>

theorem keyToSelector_refines_keyset_predicate:
  assumes "distinct (map fieldName so)"
  shows "matches (keyToSelector so key d) item \<longleftrightarrow> matches (keyset_predicate so key d) item"
  by (simp add: matches_keyToSelector [OF assms] matches_keyset_predicate)

theorem keyToSelector_refines_keyset_predicate_witness:
  "distinct (map fieldName example_sortOptions) \<and>
   matches (keyToSelector example_sortOptions [5, 7] After) (post 6 9) \<and>
   matches (keyset_predicate example_sortOptions [5, 7] After) (post 6 9)"
  using keyToSelector_refines_keyset_predicate [of example_sortOptions "[5, 7]" After "post 6 9"]
  by (simp add: example_sortOptions_def post_def keyset_predicate_def keyset_conjunct_def
        key_at_def strict_operator_def)

section \<open>Properties of the constructor\<close>

subsection \<open>The guard on \<open>first\<close> and \<open>last\<close>\<close>

text \<open>
  Claim C9, as amended. When \<open>first\<close> and \<open>last\<close> are both given and both non-zero, the
  constructor throws an error whose message is exactly
  \<open>Argument "first" and "last" must not be included at the same time\<close>.
\<close>

theorem first_and_last_message_exact:
  assumes "truthy_number (first a)" "truthy_number (last' a)"
  shows \<open>constructor lib a opts =
     Inl (Error ''Argument "first" and "last" must not be included at the same time'')\<close>
  using assms by (simp add: constructor_def first_and_last_message_def)

theorem first_and_last_message_exact_witness:
  \<open>truthy_number (first \<lparr>first = Some 2, last' = Some 2, after = None, before = None\<rparr>) \<and>
   truthy_number (last' \<lparr>first = Some 2, last' = Some 2, after = None, before = None\<rparr>) \<and>
   constructor example_library \<lparr>first = Some 2, last' = Some 2, after = None, before = None\<rparr>
       example_options =
     Inl (Error ''Argument "first" and "last" must not be included at the same time'')\<close>
  using first_and_last_message_exact
    [of "\<lparr>first = Some 2, last' = Some 2, after = None, before = None\<rparr>"
        example_library example_options]
  by (simp add: truthy_number_def)

text \<open>
  Claim C9 as stated fails: with \<open>first = 2\<close> and \<open>last = 2\<close>, the arguments of the test
  suite, the error does not carry the message
  \<open>first and last must not be included at the same time\<close>.
\<close>

theorem first_and_last_message_counterexample:
  "constructor example_library \<lparr>first = Some 2, last' = Some 2, after = None, before = None\<rparr>
       example_options
     \<noteq> Inl (Error ''first and last must not be included at the same time'')"
  by (simp add: constructor_def truthy_number_def first_and_last_message_def)

text \<open>
  Claim C4 at \<open>first = 0\<close>, \<open>last = 2\<close>: both arguments are given, and the constructor
  returns a connection instead of throwing. The guard tests the truthiness of the two
  numbers, and \<open>0\<close> is falsy.
\<close>

theorem first_zero_and_last_accepted:
  "\<not> isl (constructor example_library
            \<lparr>first = Some 0, last' = Some 2, after = None, before = None\<rparr> example_options)"
  by (simp add: constructor_def truthy_number_def explode_if_given_def)

subsection \<open>The limit\<close>

text \<open>
  Claim C5 at \<open>first = 0\<close>: the limit is \<open>undefined\<close>, not \<open>0\<close>, since
  \<open>args.first || args.last || undefined\<close> passes over a falsy \<open>first\<close>.
\<close>

theorem first_zero_limit:
  "map_sum id limit
     (constructor example_library \<lparr>first = Some 0, last' = None, after = None, before = None\<rparr>
        example_options) = Inr None"
  by (simp add: constructor_def truthy_number_def explode_if_given_def)

subsection \<open>The selector of the connection\<close>


lemma matches_combine: "matches (combine xs) item \<longleftrightarrow> (\<forall>s \<in> set xs. matches s item)"
proof (cases xs)
  case Nil
  then show ?thesis by (simp add: combine_def)
next
  case (Cons x ys)
  then show ?thesis by (cases ys) (simp_all add: combine_def)
qed

lemma constructor_InrD:
  assumes "constructor lib a opts = Inr conn"
  shows "args conn = a" and "options conn = opts"
    and "explode_if_given lib (after a) = Inr (afterKey conn)"
    and "explode_if_given lib (before a) = Inr (beforeKey conn)"
    and "afterSelector conn = map_option (\<lambda>key. keyToSelector (sortOptions conn) key After) (afterKey conn)"
    and "beforeSelector conn = map_option (\<lambda>key. keyToSelector (sortOptions conn) key Before) (beforeKey conn)"
    and "selector conn = combine (pushed (afterSelector conn) @ pushed (beforeSelector conn)
                                   @ pushed (opt_selector opts))"
    and "queryPromise conn = None"
  using assms by (auto simp: constructor_def Let_def split: if_splits sum.splits)

lemma explode_if_given_InrD:
  assumes "explode_if_given lib c = Inr k" "c \<noteq> Some []"
  shows "case c of None \<Rightarrow> k = None
         | Some s \<Rightarrow> \<exists>key. explodeCursor lib s = Inr key \<and> k = Some key"
  using assms
  by (auto simp: explode_if_given_def truthy_string_def split: option.splits sum.splits if_splits)


text \<open>
  When every cursor given is a non-empty string, the selector of a constructed
  connection holds of an entity exactly when the after-bound selector, the before-bound
  selector and the selector of the options hold of it, each counted only when present;
  the after-bound (before-bound) selector is present exactly when \<open>after\<close> (\<open>before\<close>) is
  given, and is then the range predicate of the decoded cursor; with no cursor and no
  selector in the options the selector is the empty document, which holds of every
  entity.
\<close>

theorem selector_conjunction:
  assumes "constructor lib a opts = Inr conn"
    and "after a \<noteq> Some []" and "before a \<noteq> Some []"
  shows "(matches (selector conn) item \<longleftrightarrow>
            (case afterSelector conn of None \<Rightarrow> True | Some s \<Rightarrow> matches s item) \<and>
            (case beforeSelector conn of None \<Rightarrow> True | Some s \<Rightarrow> matches s item) \<and>
            (case opt_selector opts of None \<Rightarrow> True | Some s \<Rightarrow> matches s item)) \<and>
         (case after a of
            None \<Rightarrow> afterSelector conn = None
          | Some c \<Rightarrow> \<exists>key. explodeCursor lib c = Inr key \<and>
                        afterSelector conn = Some (keyToSelector (sortOptions conn) key After)) \<and>
         (case before a of
            None \<Rightarrow> beforeSelector conn = None
          | Some c \<Rightarrow> \<exists>key. explodeCursor lib c = Inr key \<and>
                        beforeSelector conn = Some (keyToSelector (sortOptions conn) key Before)) \<and>
         (if after a = None \<and> before a = None \<and> opt_selector opts = None
          then selector conn = Doc [] \<and> matches (selector conn) item else True)"
proof -
  note D = constructor_InrD [OF assms(1)]
  have 1: "matches (selector conn) item \<longleftrightarrow>
            (case afterSelector conn of None \<Rightarrow> True | Some s \<Rightarrow> matches s item) \<and>
            (case beforeSelector conn of None \<Rightarrow> True | Some s \<Rightarrow> matches s item) \<and>
            (case opt_selector opts of None \<Rightarrow> True | Some s \<Rightarrow> matches s item)"
    unfolding D(7) matches_combine
    by (auto simp: pushed_def split: option.splits)
  have 2: "case after a of
            None \<Rightarrow> afterSelector conn = None
          | Some c \<Rightarrow> \<exists>key. explodeCursor lib c = Inr key \<and>
                        afterSelector conn = Some (keyToSelector (sortOptions conn) key After)"
    using explode_if_given_InrD [OF D(3) assms(2)] D(5)
    by (auto split: option.splits)
  have 3: "case before a of
            None \<Rightarrow> beforeSelector conn = None
          | Some c \<Rightarrow> \<exists>key. explodeCursor lib c = Inr key \<and>
                        beforeSelector conn = Some (keyToSelector (sortOptions conn) key Before)"
    using explode_if_given_InrD [OF D(4) assms(3)] D(6)
    by (auto split: option.splits)
  have 4: "if after a = None \<and> before a = None \<and> opt_selector opts = None
          then selector conn = Doc [] \<and> matches (selector conn) item else True"
    using 2 3 D(7) by (auto simp: pushed_def combine_def)
  from 1 2 3 4 show ?thesis by blast
qed


theorem selector_conjunction_witness:
  "constructor example_library example_arguments example_options = Inr example_connection \<and>
   after example_arguments \<noteq> Some [] \<and> before example_arguments \<noteq> Some [] \<and>
   matches (selector example_connection) (post 66 1) \<and>
   \<not> matches (selector example_connection) (post 69 1) \<and>
   explodeCursor example_library ''AB'' = Inr [65, 66] \<and>
   afterSelector example_connection = Some (keyToSelector example_sortOptions [65, 66] After)"
proof -
  have c: "constructor example_library example_arguments example_options = Inr example_connection"
    by (simp add: constructor_def example_arguments_def example_options_def example_library_def
          example_connection_def example_sortOptions_def truthy_number_def truthy_string_def
          explode_if_given_def explodeCursor_def pushed_def combine_def Let_def)
  have a: "after example_arguments \<noteq> Some []" "before example_arguments \<noteq> Some []"
    by (simp_all add: example_arguments_def)
  have e: "explodeCursor example_library ''AB'' = Inr [65, 66]"
    by (simp add: explodeCursor_def example_library_def)
  have s: "afterSelector example_connection = Some (keyToSelector example_sortOptions [65, 66] After)"
    "beforeSelector example_connection = Some (keyToSelector example_sortOptions [68, 65] Before)"
    by (simp_all add: example_connection_def)
  have k: "matches (keyToSelector example_sortOptions [65, 66] After) (post 66 1)"
    "matches (keyToSelector example_sortOptions [68, 65] Before) (post 66 1)"
    "\<not> matches (keyToSelector example_sortOptions [68, 65] Before) (post 69 1)"
    by (simp_all add: keyToSelector_def conjunct_def example_sortOptions_def post_def
          equality_def eq_def key_at_def)
  from selector_conjunction [OF c a, of "post 66 1"] selector_conjunction [OF c a, of "post 69 1"]
  show ?thesis using c a e s k by (simp add: example_options_def)
qed

text \<open>
  Claim C7 at \<open>after = ""\<close>: the argument is given, but \<open>if (args.after)\<close> is a
  truthiness test and the empty string is falsy, so no key is decoded, no after-bound
  selector is pushed, and the selector of the connection is the empty document.
\<close>

theorem empty_after_not_in_selector:
  "map_sum id (\<lambda>conn. (afterKey conn, afterSelector conn, selector conn))
     (constructor example_library empty_after_arguments example_options)
     = Inr (None, None, Doc [])"
  by code_simp

section \<open>Page information\<close>



lemma count_exceeds: "f < fst (count repo sel (f + 1)) \<longleftrightarrow> f < length (filter (matches sel) (documents repo))"
  by (auto simp: count_def)

lemma count_one: "0 < fst (count repo sel 1) \<longleftrightarrow> (\<exists>item \<in> set (documents repo). matches sel item)"
  by (auto simp: count_def filter_empty_conv)

lemma keyToSelector_of_Some: "keyToSelector_of so (Some k) d = Inr (keyToSelector so k d)"
  by (simp add: keyToSelector_of_def)

lemma example_constructed:
  "constructor example_library example_arguments example_options = Inr example_connection"
  by (simp add: constructor_def example_arguments_def example_options_def example_library_def
        example_connection_def example_sortOptions_def truthy_number_def truthy_string_def
        explode_if_given_def explodeCursor_def pushed_def combine_def Let_def)

text \<open>
  When every cursor given is a non-empty string: \<open>resolveHasNextPage\<close> answers, when
  \<open>first\<close> is given, whether the count of the connection's selector bounded at
  \<open>first + 1\<close> exceeds \<open>first\<close>; otherwise, when \<open>before\<close> is given, whether some
  document satisfies the \<open>after\<close> selector built from the decoded \<open>before\<close> cursor
  alone; otherwise false. \<open>resolveHasPreviousPage\<close> answers the same way from \<open>last\<close>
  and, failing that, from \<open>after\<close> with the \<open>before\<close> selector of the decoded \<open>after\<close>
  cursor.
\<close>

theorem page_info_probes:
  assumes "constructor lib a opts = Inr conn"
    and "after a \<noteq> Some []" and "before a \<noteq> Some []"
  shows "(case first a of
            Some f \<Rightarrow>
              fst (resolveHasNextPage conn repo) =
                Inr (f < fst (count repo (selector conn) (f + 1)))
          | None \<Rightarrow>
              (case before a of
                 Some c \<Rightarrow>
                   \<exists>key. explodeCursor lib c = Inr key \<and>
                     fst (resolveHasNextPage conn repo) =
                       Inr (\<exists>item \<in> set (documents repo).
                              matches (keyToSelector (sortOptions conn) key After) item)
               | None \<Rightarrow> fst (resolveHasNextPage conn repo) = Inr False)) \<and>
         (case last' a of
            Some l \<Rightarrow>
              fst (resolveHasPreviousPage conn repo) =
                Inr (l < fst (count repo (selector conn) (l + 1)))
          | None \<Rightarrow>
              (case after a of
                 Some c \<Rightarrow>
                   \<exists>key. explodeCursor lib c = Inr key \<and>
                     fst (resolveHasPreviousPage conn repo) =
                       Inr (\<exists>item \<in> set (documents repo).
                              matches (keyToSelector (sortOptions conn) key Before) item)
               | None \<Rightarrow> fst (resolveHasPreviousPage conn repo) = Inr False))"
proof -
  note D = constructor_InrD [OF assms(1)]
  have next_page: "case first a of
            Some f \<Rightarrow>
              fst (resolveHasNextPage conn repo) =
                Inr (f < fst (count repo (selector conn) (f + 1)))
          | None \<Rightarrow>
              (case before a of
                 Some c \<Rightarrow>
                   \<exists>key. explodeCursor lib c = Inr key \<and>
                     fst (resolveHasNextPage conn repo) =
                       Inr (\<exists>item \<in> set (documents repo).
                              matches (keyToSelector (sortOptions conn) key After) item)
               | None \<Rightarrow> fst (resolveHasNextPage conn repo) = Inr False)"
    using explode_if_given_InrD [OF D(4) assms(3)]
    by (auto simp: resolveHasNextPage_def D(1) keyToSelector_of_Some count_one [symmetric]
             split: option.splits prod.splits)
  have previous_page: "case last' a of
            Some l \<Rightarrow>
              fst (resolveHasPreviousPage conn repo) =
                Inr (l < fst (count repo (selector conn) (l + 1)))
          | None \<Rightarrow>
              (case after a of
                 Some c \<Rightarrow>
                   \<exists>key. explodeCursor lib c = Inr key \<and>
                     fst (resolveHasPreviousPage conn repo) =
                       Inr (\<exists>item \<in> set (documents repo).
                              matches (keyToSelector (sortOptions conn) key Before) item)
               | None \<Rightarrow> fst (resolveHasPreviousPage conn repo) = Inr False)"
    using explode_if_given_InrD [OF D(3) assms(2)]
    by (auto simp: resolveHasPreviousPage_def D(1) keyToSelector_of_Some count_one [symmetric]
             split: option.splits prod.splits)
  from next_page previous_page show ?thesis by blast
qed

theorem page_info_probes_witness:
  "constructor example_library example_arguments example_options = Inr example_connection \<and>
   after example_arguments \<noteq> Some [] \<and> before example_arguments \<noteq> Some [] \<and>
   first example_arguments = Some 2 \<and>
   fst (resolveHasNextPage example_connection example_repository) = Inr True \<and>
   fst (count example_repository (selector example_connection) 3) = 3 \<and>
   fst (resolveHasPreviousPage example_connection example_repository) = Inr True"
proof -
  have a: "after example_arguments \<noteq> Some []" "before example_arguments \<noteq> Some []"
    "first example_arguments = Some 2" "last' example_arguments = None"
    "after example_arguments = Some ''AB''"
    by (simp_all add: example_arguments_def)
  have c: "fst (count example_repository (selector example_connection) 3) = 3"
    by code_simp
  have p: "fst (resolveHasPreviousPage example_connection example_repository) = Inr True"
    by code_simp
  from page_info_probes [OF example_constructed a(1,2), of example_repository]
  show ?thesis using example_constructed a c p by simp
qed

text \<open>
  Claim C3 at \<open>before = ""\<close> and at \<open>after = ""\<close>: the constructor accepts the
  arguments without decoding a key, \<open>typeof before === 'string'\<close> holds, and
  \<open>keyToSelector\<close> reads \<open>key[0]\<close> of the key that was never set: the method throws a
  TypeError instead of resolving to a truth value.
\<close>

theorem empty_cursor_page_info_throws:
  "map_sum id (\<lambda>conn. fst (resolveHasNextPage conn example_repository))
     (constructor example_library empty_before_arguments example_options)
     = Inr (Inl (TypeError ''Cannot read property of undefined'')) \<and>
   map_sum id (\<lambda>conn. fst (resolveHasPreviousPage conn example_repository))
     (constructor example_library empty_after_arguments example_options)
     = Inr (Inl (TypeError ''Cannot read property of undefined''))"
  by code_simp

section \<open>The edge sources are fetched once\<close>


lemma getEdgeSources_cached:
  "queryPromise conn = Some docs \<Longrightarrow> getEdgeSources conn repo = (docs, conn, repo)"
  by (simp add: getEdgeSources_def)

lemma getEdgeSources_times_cached:
  "queryPromise conn = Some docs \<Longrightarrow>
   getEdgeSources_times n conn repo = (replicate n docs, conn, repo)"
  by (induction n) (simp_all add: getEdgeSources_cached)

lemma getEdgeSources_first:
  "queryPromise conn = None \<Longrightarrow>
   getEdgeSources conn repo =
     (fst (query conn repo), conn\<lparr>queryPromise := Some (fst (query conn repo))\<rparr>,
      snd (query conn repo))"
  by (simp add: getEdgeSources_def split: prod.splits)

lemma calls_query:
  "calls (snd (query conn repo)) =
     calls repo @ [Find (selector conn)
                     (appliedSortOrder (sortOptions conn) (last' (args conn) \<noteq> None))
                     (limit conn)]"
  by (simp add: query_def find_def Let_def split: prod.splits)

text \<open>
  Claim C8. On a constructed connection any number of reads of the edge sources, one or
  more, returns the same documents every time, leaves the repository as a single query
  leaves it, whose log has exactly one more call, the \<open>find\<close>; the first read stores
  the result in \<open>queryPromise\<close>, and a read of the connection in that state returns the
  stored documents and does not touch the repository, whatever its state.
\<close>

theorem getEdgeSources_fetches_once:
  assumes "constructor lib a opts = Inr conn"
  shows "getEdgeSources_times (Suc n) conn repo =
           (replicate (Suc n) (fst (query conn repo)),
            conn\<lparr>queryPromise := Some (fst (query conn repo))\<rparr>,
            snd (query conn repo)) \<and>
         calls (snd (query conn repo)) =
           calls repo @ [Find (selector conn)
                           (appliedSortOrder (sortOptions conn) (last' a \<noteq> None))
                           (limit conn)] \<and>
         (\<forall>repo2. getEdgeSources (conn\<lparr>queryPromise := Some (fst (query conn repo))\<rparr>) repo2 =
            (fst (query conn repo), conn\<lparr>queryPromise := Some (fst (query conn repo))\<rparr>, repo2))"
proof -
  note D = constructor_InrD [OF assms]
  let ?docs = "fst (query conn repo)"
  let ?conn = "conn\<lparr>queryPromise := Some ?docs\<rparr>"
  have "getEdgeSources_times n ?conn (snd (query conn repo)) =
          (replicate n ?docs, ?conn, snd (query conn repo))"
    by (rule getEdgeSources_times_cached) simp
  then have "getEdgeSources_times (Suc n) conn repo =
           (replicate (Suc n) ?docs, ?conn, snd (query conn repo))"
    by (simp add: getEdgeSources_first [OF D(8)])
  moreover have "\<forall>repo2. getEdgeSources ?conn repo2 = (?docs, ?conn, repo2)"
    by (simp add: getEdgeSources_cached)
  ultimately show ?thesis
    using calls_query [of conn repo] by (simp add: D(1))
qed

theorem getEdgeSources_fetches_once_witness:
  "constructor example_library example_arguments example_options = Inr example_connection \<and>
   map (map (\<lambda>d. (d ''createdAt'', d ''slug'')))
     (fst (getEdgeSources_times 3 example_connection example_repository)) =
     [[(65, 60), (66, 1)], [(65, 60), (66, 1)], [(65, 60), (66, 1)]] \<and>
   length (calls (snd (snd (getEdgeSources_times 3 example_connection example_repository)))) = 1"
proof -
  have q: "map (\<lambda>d. (d ''createdAt'', d ''slug'')) (fst (query example_connection example_repository))
             = [(65, 60), (66, 1)]"
    by code_simp
  have r: "calls example_repository = []"
    by (simp add: example_repository_def)
  from getEdgeSources_fetches_once [OF example_constructed, of 2 example_repository]
  show ?thesis using example_constructed q r by (simp add: numeral_3_eq_3)
qed

section \<open>The query\<close>

subsection \<open>Sorting by a strict order\<close>


lemma set_insort_by: "set (insort_by lt x xs) = insert x (set xs)"
  by (induction xs) auto

lemma set_sort_by: "set (sort_by lt xs) = set xs"
  by (induction xs) (simp_all add: sort_by_def set_insort_by)

lemma length_insort_by: "length (insort_by lt x xs) = Suc (length xs)"
  by (induction xs) auto

lemma length_sort_by: "length (sort_by lt xs) = length xs"
  by (induction xs) (simp_all add: sort_by_def length_insort_by)

lemma sorted_insort_by:
  assumes trans: "\<And>a b c. lt a b \<Longrightarrow> lt b c \<Longrightarrow> lt a c"
    and total: "\<And>y. y \<in> set xs \<Longrightarrow> \<not> lt y x \<Longrightarrow> lt x y"
    and sorted: "sorted_wrt lt xs"
  shows "sorted_wrt lt (insort_by lt x xs)"
  using total sorted
proof (induction xs)
  case Nil
  then show ?case by simp
next
  case (Cons y ys)
  show ?case
  proof (cases "lt y x")
    case True
    with Cons show ?thesis by (auto simp: set_insort_by)
  next
    case False
    with Cons.prems have "lt x y" by simp
    with Cons.prems False show ?thesis by (auto intro: trans)
  qed
qed

lemma sorted_sort_by:
  assumes trans: "\<And>a b c. lt a b \<Longrightarrow> lt b c \<Longrightarrow> lt a c"
    and total: "\<And>x y. x \<in> set xs \<Longrightarrow> y \<in> set xs \<Longrightarrow> x \<noteq> y \<Longrightarrow> lt x y \<or> lt y x"
    and "distinct xs"
  shows "sorted_wrt lt (sort_by lt xs)"
  using total \<open>distinct xs\<close>
proof (induction xs)
  case Nil
  then show ?case by (simp add: sort_by_def)
next
  case (Cons x xs)
  have "distinct xs" using Cons.prems(2) by simp
  moreover have "lt u v \<or> lt v u" if "u \<in> set xs" "v \<in> set xs" "u \<noteq> v" for u v
    using that Cons.prems(1) [of u v] by simp
  ultimately have IH: "sorted_wrt lt (sort_by lt xs)"
    by (rule Cons.IH [rotated])
  have "sorted_wrt lt (insort_by lt x (sort_by lt xs))"
  proof (rule sorted_insort_by)
    show "lt a c" if "lt a b" "lt b c" for a b c
      using that by (rule trans)
    show "lt x y" if "y \<in> set (sort_by lt xs)" "\<not> lt y x" for y
    proof -
      from that(1) have y: "y \<in> set xs" by (simp add: set_sort_by)
      with Cons.prems(2) have "x \<noteq> y" by auto
      with Cons.prems(1) [of x y] y that(2) show ?thesis by simp
    qed
    show "sorted_wrt lt (sort_by lt xs)" by (rule IH)
  qed
  then show ?case by (simp add: sort_by_def)
qed

lemma sorted_wrt_unique:
  assumes trans: "\<And>a b c. lt a b \<Longrightarrow> lt b c \<Longrightarrow> lt a c"
    and irrefl: "\<And>a. \<not> lt a a"
  shows "sorted_wrt lt xs \<Longrightarrow> sorted_wrt lt ys \<Longrightarrow> set xs = set ys \<Longrightarrow> xs = ys"
proof (induction xs arbitrary: ys)
  case Nil
  then show ?case by simp
next
  case (Cons x xs)
  from Cons.prems(3) obtain y ys' where ys: "ys = y # ys'" by (cases ys) auto
  from Cons.prems ys have x: "x = y \<or> lt y x" by auto
  from Cons.prems ys have y: "y = x \<or> lt x y" by auto
  from x y have xy: "x = y" using trans irrefl by blast
  from Cons.prems(1) irrefl have "x \<notin> set xs" by auto
  moreover from Cons.prems(2) ys irrefl have "y \<notin> set ys'" by auto
  ultimately have "set xs = set ys'" using Cons.prems(3) ys xy by auto
  with Cons.IH [of ys'] Cons.prems ys have "xs = ys'" by simp
  with xy ys show ?case by simp
qed

lemma sort_by_flip:
  assumes trans: "\<And>a b c. lt a b \<Longrightarrow> lt b c \<Longrightarrow> lt a c"
    and irrefl: "\<And>a. \<not> lt a a"
    and total: "\<And>x y. x \<in> set xs \<Longrightarrow> y \<in> set xs \<Longrightarrow> x \<noteq> y \<Longrightarrow> lt x y \<or> lt y x"
    and "distinct xs"
  shows "sort_by (\<lambda>a b. lt b a) xs = rev (sort_by lt xs)"
proof (rule sorted_wrt_unique [where lt = "\<lambda>a b. lt b a"])
  show "sorted_wrt (\<lambda>a b. lt b a) (sort_by (\<lambda>a b. lt b a) xs)"
    using total \<open>distinct xs\<close> by (intro sorted_sort_by) (blast intro: trans)+
  have "sorted_wrt lt (sort_by lt xs)"
    using total \<open>distinct xs\<close> by (intro sorted_sort_by) (blast intro: trans)+
  then show "sorted_wrt (\<lambda>a b. lt b a) (rev (sort_by lt xs))"
    by (simp add: sorted_wrt_rev)
  show "set (sort_by (\<lambda>a b. lt b a) xs) = set (rev (sort_by lt xs))"
    by (simp add: set_sort_by)
next
  fix a b c assume "lt b a" "lt c b"
  then show "lt c a" by (blast intro: trans)
next
  fix a show "\<not> lt a a" by (rule irrefl)
qed

lemma key_less_irrefl: "\<not> key_less ds a a"
proof (induction ds arbitrary: a)
  case Nil
  then show ?case by simp
next
  case (Cons d ds)
  then show ?case by (cases a) auto
qed

lemma key_less_trans: "key_less ds a b \<Longrightarrow> key_less ds b c \<Longrightarrow> key_less ds a c"
proof (induction ds arbitrary: a b c)
  case Nil
  then show ?case by simp
next
  case (Cons d ds)
  from Cons.prems(1) obtain x xs y ys where a: "a = x # xs" and b: "b = y # ys"
    by (cases a; cases b) simp_all
  from Cons.prems(2) b obtain z zs where c: "c = z # zs"
    by (cases c) simp_all
  from Cons.prems(1) a b
  have ab: "if x = y then key_less ds xs ys else if d = 1 then x < y else y < x" by simp
  from Cons.prems(2) b c
  have bc: "if y = z then key_less ds ys zs else if d = 1 then y < z else z < y" by simp
  consider "x = y" "y = z" | "x = y" "y \<noteq> z" | "x \<noteq> y" "y = z" | "x \<noteq> y" "y \<noteq> z"
    by blast
  then have "if x = z then key_less ds xs zs else if d = 1 then x < z else z < x"
  proof cases
    case 1
    with ab bc have "key_less ds xs zs" by (auto intro: Cons.IH)
    with 1 show ?thesis by simp
  next
    case 2
    with bc show ?thesis by simp
  next
    case 3
    with ab show ?thesis by (simp split: if_splits)
  next
    case 4
    with ab bc show ?thesis by (cases "d = 1") auto
  qed
  then show ?case by (simp add: a c)
qed

lemma key_less_total:
  "length a = length ds \<Longrightarrow> length b = length ds \<Longrightarrow> a \<noteq> b \<Longrightarrow>
   key_less ds a b \<or> key_less ds b a"
proof (induction ds arbitrary: a b)
  case Nil
  then show ?case by simp
next
  case (Cons d ds)
  then show ?case
    by (cases a; cases b) (auto split: if_splits)
qed

lemma key_less_reversed:
  "\<forall>d \<in> set ds. d = 1 \<or> d = - 1 \<Longrightarrow>
   key_less (map (\<lambda>d. d * (- 1)) ds) a b = key_less ds b a"
  by (induction ds a b rule: key_less.induct) auto

subsection \<open>Backward paging\<close>

lemma appliedSortOrder_distinct:
  assumes "distinct (map fieldName so)"
  shows "appliedSortOrder so reverse =
           map (\<lambda>s. (fieldName s, order s * (if reverse then - 1 else 1))) so"
proof -
  have "distinct (map fst [] @ map fieldName so)"
    using assms by simp
  from foldl_update_fresh [OF this, of "\<lambda>s. order s * (if reverse then - 1 else 1)"]
  show ?thesis
    unfolding appliedSortOrder_def by (simp only: append_Nil)
qed

lemma entity_less_appliedSortOrder:
  assumes "distinct (map fieldName so)"
  shows "entity_less (appliedSortOrder so False) x y
           = key_less (map order so) (extractKey so x) (extractKey so y)"
  by (simp add: appliedSortOrder_distinct [OF assms] entity_less_def extractKey_def comp_def)

lemma entity_less_reversed:
  assumes "distinct (map fieldName so)" "\<forall>s \<in> set so. order s = 1 \<or> order s = - 1"
  shows "entity_less (appliedSortOrder so True) x y = entity_less (appliedSortOrder so False) y x"
proof -
  have "entity_less (appliedSortOrder so True) x y
          = key_less (map (\<lambda>d. d * (- 1)) (map order so)) (extractKey so x) (extractKey so y)"
    by (simp add: appliedSortOrder_distinct [OF assms(1)] entity_less_def extractKey_def comp_def)
  also have "\<dots> = key_less (map order so) (extractKey so y) (extractKey so x)"
    using assms(2) by (intro key_less_reversed) auto
  finally show ?thesis by (simp add: entity_less_appliedSortOrder [OF assms(1)])
qed

lemma constructor_sortOptions:
  assumes "constructor lib a opts = Inr conn"
  shows "sortOptions conn =
           map (\<lambda>name. \<lparr>fieldName = name, order = the (map_of (opt_sortOptions opts) name)\<rparr>)
             (map fst (opt_sortOptions opts))"
    and "limit conn = (if truthy_number (first a) then first a
                       else if truthy_number (last' a) then last' a else None)"
    and "\<not> (truthy_number (first a) \<and> truthy_number (last' a))"
  using assms by (auto simp: constructor_def Let_def split: if_splits sum.splits)

text \<open>
  With \<open>last = k\<close> for a positive \<open>k\<close>, sort options with distinct field names and
  orders \<open>1\<close> and \<open>-1\<close>, and matching documents with pairwise distinct sort keys: the
  query returns the final \<open>k\<close> of the matching documents in the order of the sort
  options, and \<open>resolveHasPreviousPage\<close> answers whether more than \<open>k\<close> documents match.
\<close>

lemma query_last:
  assumes constructed: "constructor lib a opts = Inr conn"
    and last: "last' a = Some k" "0 < k"
    and names: "distinct (map fst (opt_sortOptions opts))"
    and orders: "\<forall>p \<in> set (opt_sortOptions opts). snd p = 1 \<or> snd p = - 1"
    and keys: "distinct (map (extractKey (sortOptions conn))
                          (filter (matches (selector conn)) (documents repo)))"
  shows "fst (query conn repo) =
           drop (length (filter (matches (selector conn)) (documents repo)) - k)
             (sort_by (entity_less (appliedSortOrder (sortOptions conn) False))
                (filter (matches (selector conn)) (documents repo)))"
    and "fst (resolveHasPreviousPage conn repo) =
           Inr (k < length (filter (matches (selector conn)) (documents repo)))"
proof -
  note D = constructor_InrD [OF constructed]
  note S = constructor_sortOptions [OF constructed]
  let ?so = "sortOptions conn"
  let ?rows = "filter (matches (selector conn)) (documents repo)"
  let ?lt = "entity_less (appliedSortOrder ?so False)"
  have dn: "distinct (map fieldName ?so)"
    using names by (simp add: S(1) comp_def)
  have ord: "\<forall>s \<in> set ?so. order s = 1 \<or> order s = - 1"
  proof
    fix s assume "s \<in> set ?so"
    then obtain p where p: "p \<in> set (opt_sortOptions opts)"
      and s: "order s = the (map_of (opt_sortOptions opts) (fst p))"
      by (auto simp: S(1))
    from names p have "map_of (opt_sortOptions opts) (fst p) = Some (snd p)" by simp
    with s orders p show "order s = 1 \<or> order s = - 1" by auto
  qed
  have lim: "limit conn = Some k"
    using S(2,3) last by (auto simp: truthy_number_def)
  have lt: "?lt x y = key_less (map order ?so) (extractKey ?so x) (extractKey ?so y)" for x y
    by (rule entity_less_appliedSortOrder [OF dn])
  have flip: "entity_less (appliedSortOrder ?so True) = (\<lambda>x y. ?lt y x)"
    by (intro ext) (rule entity_less_reversed [OF dn ord])
  have drows: "distinct ?rows"
    using keys by (rule distinct_map [THEN iffD1, THEN conjunct1])
  have inj: "inj_on (extractKey ?so) (set ?rows)"
    using keys by (rule distinct_map [THEN iffD1, THEN conjunct2])
  have total: "?lt x y \<or> ?lt y x" if "x \<in> set ?rows" "y \<in> set ?rows" "x \<noteq> y" for x y
  proof -
    from that inj have "extractKey ?so x \<noteq> extractKey ?so y" by (auto dest: inj_onD)
    then show ?thesis
      unfolding lt by (intro key_less_total) (simp_all add: extractKey_def)
  qed
  have rev_sort: "sort_by (\<lambda>x y. ?lt y x) ?rows = rev (sort_by ?lt ?rows)"
  proof (rule sort_by_flip)
    show "?lt a b \<Longrightarrow> ?lt b c \<Longrightarrow> ?lt a c" for a b c
      unfolding lt by (rule key_less_trans)
    show "\<not> ?lt a a" for a unfolding lt by (rule key_less_irrefl)
  qed (use total drows in auto)
  have "fst (query conn repo) = rev (take k (sort_by (\<lambda>x y. ?lt y x) ?rows))"
    by (simp add: query_def find_def D(1) last lim flip Let_def)
  also have "\<dots> = drop (length ?rows - k) (sort_by ?lt ?rows)"
    by (simp add: rev_sort rev_take length_sort_by)
  finally show "fst (query conn repo) = drop (length ?rows - k) (sort_by ?lt ?rows)" .
  show "fst (resolveHasPreviousPage conn repo) = Inr (k < length ?rows)"
    by (auto simp: resolveHasPreviousPage_def D(1) last count_def)
qed

text \<open>The lemma at \<open>last = 2\<close> on the collection of seven posts.\<close>

lemma query_last_example:
  "constructor example_library last_two_arguments example_options = Inr last_two_connection \<and>
   map (\<lambda>d. (d ''createdAt'', d ''slug'')) (fst (query last_two_connection example_repository))
     = [(68, 70), (69, 1)] \<and>
   map (\<lambda>d. (d ''createdAt'', d ''slug''))
     (sort_by (entity_less (appliedSortOrder example_sortOptions False)) (documents example_repository))
     = [(64, 1), (65, 70), (65, 60), (66, 1), (67, 1), (68, 70), (69, 1)] \<and>
   fst (resolveHasPreviousPage last_two_connection example_repository) = Inr True"
proof -
  have c: "constructor example_library last_two_arguments example_options = Inr last_two_connection"
    by (simp add: constructor_def last_two_arguments_def example_options_def example_library_def
          last_two_connection_def example_sortOptions_def truthy_number_def truthy_string_def
          explode_if_given_def pushed_def combine_def Let_def)
  have l: "last' last_two_arguments = Some 2" "(0::nat) < 2"
    by (simp_all add: last_two_arguments_def)
  have n: "distinct (map fst (opt_sortOptions example_options))"
    "\<forall>p \<in> set (opt_sortOptions example_options). snd p = 1 \<or> snd p = - 1"
    by (simp_all add: example_options_def)
  have f: "filter (matches (selector last_two_connection)) (documents example_repository)
             = documents example_repository"
    by (simp add: last_two_connection_def)
  have k: "distinct (map (extractKey (sortOptions last_two_connection))
             (filter (matches (selector last_two_connection)) (documents example_repository)))"
    unfolding f by code_simp
  have s: "map (\<lambda>d. (d ''createdAt'', d ''slug''))
     (sort_by (entity_less (appliedSortOrder example_sortOptions False)) (documents example_repository))
     = [(64, 1), (65, 70), (65, 60), (66, 1), (67, 1), (68, 70), (69, 1)]"
    by code_simp
  have len: "length (documents example_repository) = 7"
    by (simp add: example_repository_def)
  have so: "sortOptions last_two_connection = example_sortOptions"
    by (simp add: last_two_connection_def)
  from query_last [OF c l n k] s
  show ?thesis using c by (simp add: f len so drop_map [symmetric])
qed

text \<open>
  Claim C2 at \<open>last = 0\<close>: the fetch is reversed, but the limit is \<open>undefined\<close>
  (\<open>0\<close> is falsy), so the query returns all seven documents of the
  collection and not the final zero of them.
\<close>

theorem last_zero_fetches_everything:
  "map_sum id
     (\<lambda>conn. map (\<lambda>d. (d ''createdAt'', d ''slug'')) (fst (query conn example_repository)))
     (constructor example_library last_zero_arguments example_options)
   = Inr [(64, 1), (65, 70), (65, 60), (66, 1), (67, 1), (68, 70), (69, 1)]"
  by code_simp

end
